theory Spec2Isabelle
  imports Main
begin

section \<open>Strings\<close>

text \<open>
  A JavaScript string is a sequence of code units. The model covers the code units
  0..255 (ASCII and Latin-1), one \<^typ>\<open>char\<close> each; \<open>of_char\<close> is the code unit.
\<close>

definition isWordChar :: "char \<Rightarrow> bool" where
  \<comment> \<open>the word characters of \<open>\b\<close> without the \<open>u\<close> flag: a-z, A-Z, 0-9 and _\<close>
  "isWordChar c = (let n = (of_char c :: nat) in
      (48 \<le> n \<and> n \<le> 57) \<or> (65 \<le> n \<and> n \<le> 90) \<or> n = 95 \<or> (97 \<le> n \<and> n \<le> 122))"

definition toLowerCase_char :: "char \<Rightarrow> char" where
  \<comment> \<open>A-Z and the Latin-1 capitals 0xC0..0xDE (not the sign 0xD7) move up by 32\<close>
  "toLowerCase_char c = (let n = (of_char c :: nat) in
      if (65 \<le> n \<and> n \<le> 90) \<or> (192 \<le> n \<and> n \<le> 222 \<and> n \<noteq> 215)
      then char_of (n + 32) else c)"

definition toLowerCase :: "string \<Rightarrow> string" where
  "toLowerCase s = map toLowerCase_char s"

definition Canonicalize :: "char \<Rightarrow> nat" where
  \<comment> \<open>case folding of the \<open>i\<close> flag without \<open>u\<close>: the code unit of the upper-case form
      when that is one code unit (0xB5 and 0xFF leave Latin-1, 0xDF has none)\<close>
  "Canonicalize c = (let n = (of_char c :: nat) in
      if (97 \<le> n \<and> n \<le> 122) \<or> (224 \<le> n \<and> n \<le> 254 \<and> n \<noteq> 247) then n - 32
      else if n = 181 then 924
      else if n = 255 then 376
      else n)"

definition ci_eq :: "char \<Rightarrow> char \<Rightarrow> bool" where
  "ci_eq a b = (Canonicalize a = Canonicalize b)"

definition slice1 :: "string \<Rightarrow> string" where
  \<comment> \<open>\<open>tag.slice(1)\<close>\<close>
  "slice1 s = drop 1 s"

fun includes_str :: "string \<Rightarrow> string \<Rightarrow> bool" where
  \<comment> \<open>\<open>String.prototype.includes\<close>: the argument occurs as a substring\<close>
  "includes_str [] sub = (sub = [])"
| "includes_str (c # cs) sub = (take (length sub) (c # cs) = sub \<or> includes_str cs sub)"

section \<open>Regular expressions\<close>

definition backslash :: char where
  "backslash = CHR 0x5C"

definition isSyntaxCharacter :: "char \<Rightarrow> bool" where
  \<comment> \<open>the characters a pattern cannot hold unescaped as literals\<close>
  "isSyntaxCharacter c = (c \<in> set (''^$.*+?()[]{}|'' @ [backslash]))"

fun escapeRegExp :: "string \<Rightarrow> string" where
  \<comment> \<open>\<open>string.replace(/[.*+?^${}()|[\]\\]/g, '\\$&')\<close>: a backslash before each character
      of the class\<close>
  "escapeRegExp [] = []"
| "escapeRegExp (c # cs) =
     (if c \<in> set (''.*+?^${}()|[]'' @ [backslash])
      then backslash # c # escapeRegExp cs
      else c # escapeRegExp cs)"

datatype node = NegLookbehind char | WordBoundary | PatternChar char

datatype error = SyntaxError | Unsupported | IOError

text \<open>
  \<open>new RegExp(pattern, 'gi')\<close> on the patterns the program builds: a negative lookbehind
  on one character, \<open>\b\<close>, literal characters and escaped syntax characters. Every such
  pattern is valid. A lone backslash at the end is a \<open>SyntaxError\<close>; any other source
  outside this fragment (groups, quantifiers, classes, other escapes) is not modelled and
  is answered with \<open>Unsupported\<close>.
\<close>

function RegExp_new :: "string \<Rightarrow> error + node list" where
  "RegExp_new [] = Inr []"
| "RegExp_new (c # cs) =
     (if c = backslash then
        (case cs of
           [] \<Rightarrow> Inl SyntaxError
         | d # ds \<Rightarrow>
             if d = CHR ''b'' then map_sum id (Cons WordBoundary) (RegExp_new ds)
             else if isSyntaxCharacter d then map_sum id (Cons (PatternChar d)) (RegExp_new ds)
             else Inl Unsupported)
      else if c = CHR ''('' then
        (if take 3 cs = ''?<!'' \<and> 5 \<le> length cs \<and> cs ! 4 = CHR '')''
            \<and> \<not> isSyntaxCharacter (cs ! 3)
         then map_sum id (Cons (NegLookbehind (cs ! 3))) (RegExp_new (drop 5 cs))
         else Inl Unsupported)
      else if isSyntaxCharacter c then Inl Unsupported
      else map_sum id (Cons (PatternChar c)) (RegExp_new cs))"
  by pat_completeness auto
termination
  by (relation "measure length") auto

definition isWordBefore :: "string \<Rightarrow> bool" where
  "isWordBefore pre = (pre \<noteq> [] \<and> isWordChar (last pre))"

definition isWordAt :: "string \<Rightarrow> bool" where
  "isWordAt rest = (rest \<noteq> [] \<and> isWordChar (hd rest))"

text \<open>
  Matching at one position of a string \<open>pre @ rest\<close>, the position being \<open>length pre\<close>:
  the number of code units matched, or None. No node of the fragment offers a choice,
  so there is no backtracking.
\<close>

fun match_nodes :: "node list \<Rightarrow> string \<Rightarrow> string \<Rightarrow> nat option" where
  "match_nodes [] pre rest = Some 0"
| "match_nodes (NegLookbehind c # ns) pre rest =
     (if pre \<noteq> [] \<and> ci_eq (last pre) c then None else match_nodes ns pre rest)"
| "match_nodes (WordBoundary # ns) pre rest =
     (if isWordBefore pre \<noteq> isWordAt rest then match_nodes ns pre rest else None)"
| "match_nodes (PatternChar c # ns) pre rest =
     (case rest of
        [] \<Rightarrow> None
      | d # ds \<Rightarrow> if ci_eq d c then map_option Suc (match_nodes ns (pre @ [d]) ds) else None)"

fun GetSubstitution :: "string \<Rightarrow> string \<Rightarrow> string \<Rightarrow> string \<Rightarrow> string" where
  \<comment> \<open>the replacement template expanded for one match, without capture groups:
      \<open>matched\<close>, the text before it, the text after it, the template\<close>
  "GetSubstitution matched preceding following [] = []"
| "GetSubstitution matched preceding following [c] = [c]"
| "GetSubstitution matched preceding following (c # d # r) =
     (if c = CHR ''$'' \<and> d = CHR ''$'' then CHR ''$'' # GetSubstitution matched preceding following r
      else if c = CHR ''$'' \<and> d = CHR 0x60 then preceding @ GetSubstitution matched preceding following r
      else if c = CHR ''$'' \<and> d = CHR ''&'' then matched @ GetSubstitution matched preceding following r
      else if c = CHR ''$'' \<and> d = CHR 0x27 then following @ GetSubstitution matched preceding following r
      else c # GetSubstitution matched preceding following (d # r))"

lemma match_nodes_le: "match_nodes ns pre rest = Some n \<Longrightarrow> n \<le> length rest"
  by (induction ns pre rest arbitrary: n rule: match_nodes.induct)
     (auto split: if_splits list.splits)

text \<open>
  \<open>String.prototype.replace\<close> with a global regular expression: the matches are looked
  for from left to right, each search starting where the last match ended, one code unit
  further after an empty match. \<open>pre\<close> is the text before the search position.
\<close>

function replace_loop :: "node list \<Rightarrow> string \<Rightarrow> string \<Rightarrow> string \<Rightarrow> string" where
  "replace_loop re template pre rest =
     (case match_nodes re pre rest of
        None \<Rightarrow>
          (case rest of
             [] \<Rightarrow> []
           | c # cs \<Rightarrow> c # replace_loop re template (pre @ [c]) cs)
      | Some n \<Rightarrow>
          GetSubstitution (take n rest) pre (drop n rest) template @
          (if n = 0 then
             (case rest of
                [] \<Rightarrow> []
              | c # cs \<Rightarrow> c # replace_loop re template (pre @ [c]) cs)
           else replace_loop re template (pre @ take n rest) (drop n rest)))"
  by pat_completeness auto
termination
  by (relation "measure (\<lambda>(re, template, pre, rest). length rest)")
     (auto dest!: match_nodes_le)

definition replace :: "string \<Rightarrow> node list \<Rightarrow> string \<Rightarrow> string" where
  \<comment> \<open>\<open>str.replace(regex, template)\<close>\<close>
  "replace str re template = replace_loop re template [] str"

section \<open>The plugin\<close>

record TFile =
  path :: string
  basename :: string
  extension :: string

datatype console_entry =
  TagsFound nat | WasTagged string | Failed string error | Snooping | NoMoreSnooping

datatype io = Read string | Modify string string

text \<open>
  The plugin with the part of the host it talks to: the vault's files and their bodies by
  path, the paths whose read or write the vault rejects, the tags of the metadata cache
  by path (None: no cache, Some None: a cache without tags), the console, and the reads
  and writes asked of the vault in order.
\<close>

record app =
  tags :: "string list"
  files :: "TFile list"
  data :: "string \<rightharpoonup> string"
  unreadable :: "string set"
  unwritable :: "string set"
  fileCache :: "string \<rightharpoonup> string list option"
  console :: "console_entry list"
  vault_io :: "io list"

definition getMarkdownFiles :: "app \<Rightarrow> TFile list" where
  \<comment> \<open>the host's list of markdown files: the files with the extension md\<close>
  "getMarkdownFiles a = filter (\<lambda>f. extension f = ''md'') (files a)"

definition vault_read :: "app \<Rightarrow> TFile \<Rightarrow> app \<times> (error + string)" where
  "vault_read a file =
     (a\<lparr>vault_io := vault_io a @ [Read (path file)]\<rparr>,
      if path file \<in> unreadable a then Inl IOError
      else (case data a (path file) of None \<Rightarrow> Inl IOError | Some body \<Rightarrow> Inr body))"

definition vault_modify :: "app \<Rightarrow> TFile \<Rightarrow> string \<Rightarrow> app \<times> (error + unit)" where
  "vault_modify a file body =
     (if path file \<in> unwritable a
      then (a\<lparr>vault_io := vault_io a @ [Modify (path file) body]\<rparr>, Inl IOError)
      else (a\<lparr>data := (data a)(path file \<mapsto> body),
              vault_io := vault_io a @ [Modify (path file) body]\<rparr>, Inr ()))"

fun push_tags :: "string list \<Rightarrow> string list \<Rightarrow> string list" where
  \<comment> \<open>the inner loop of \<open>updateTags\<close> over one file's tags\<close>
  "push_tags acc [] = acc"
| "push_tags acc (tag # rest) =
     push_tags (if tag \<notin> set acc then acc @ [tag] else acc) rest"

fun updateTags_loop :: "app \<Rightarrow> TFile list \<Rightarrow> string list \<Rightarrow> string list" where
  "updateTags_loop a [] acc = acc"
| "updateTags_loop a (file # rest) acc =
     (case fileCache a (path file) of
        Some (Some cache_tags) \<Rightarrow> updateTags_loop a rest (push_tags acc cache_tags)
      | _ \<Rightarrow> updateTags_loop a rest acc)"

definition updateTags :: "app \<Rightarrow> app" where
  "updateTags a =
     (let found = updateTags_loop a (getMarkdownFiles a) []
      in a\<lparr>tags := found, console := console a @ [TagsFound (length found)]\<rparr>)"

definition tag_pattern :: "string \<Rightarrow> string" where
  \<comment> \<open>the template literal \<open>(?<!#)\\b${escapedWord}\\b\<close>\<close>
  "tag_pattern escapedWord =
     ''(?<!#)'' @ [backslash, CHR ''b''] @ escapedWord @ [backslash, CHR ''b'']"

fun processFile_loop :: "string list \<Rightarrow> string \<Rightarrow> bool \<Rightarrow> error + string \<times> bool" where
  \<comment> \<open>the loop of \<open>processFile\<close> over \<open>this.tags\<close>, on \<open>newContent\<close> and \<open>changed\<close>\<close>
  "processFile_loop [] newContent changed = Inr (newContent, changed)"
| "processFile_loop (tag # rest) newContent changed =
     (let word = toLowerCase (slice1 tag);
          escapedWord = escapeRegExp word
      in case RegExp_new (tag_pattern escapedWord) of
           Inl e \<Rightarrow> Inl e
         | Inr regex \<Rightarrow>
             (let updatedContent = replace newContent regex (CHR ''#'' # word)
              in if updatedContent \<noteq> newContent
                 then processFile_loop rest updatedContent True
                 else processFile_loop rest newContent changed))"

definition processFile :: "app \<Rightarrow> TFile \<Rightarrow> app" where
  "processFile a file =
     (if \<not> includes_str (extension file) ''md'' then a
      else
        (let (a1, r) = vault_read a file
         in case r of
              Inl e \<Rightarrow> a1\<lparr>console := console a1 @ [Failed (basename file) e]\<rparr>
            | Inr content \<Rightarrow>
                (case processFile_loop (tags a1) content False of
                   Inl e \<Rightarrow> a1\<lparr>console := console a1 @ [Failed (basename file) e]\<rparr>
                 | Inr (newContent, changed) \<Rightarrow>
                     if changed then
                       (let (a2, w) = vault_modify a1 file newContent
                        in case w of
                             Inl e \<Rightarrow> a2\<lparr>console := console a2 @ [Failed (basename file) e]\<rparr>
                           | Inr u \<Rightarrow> a2\<lparr>console := console a2 @ [WasTagged (basename file)]\<rparr>)
                     else a1)))"

fun processAllFiles_loop :: "app \<Rightarrow> TFile list \<Rightarrow> app" where
  "processAllFiles_loop a [] = a"
| "processAllFiles_loop a (file # rest) = processAllFiles_loop (processFile a file) rest"

definition processAllFiles :: "app \<Rightarrow> app" where
  "processAllFiles a =
     (let a1 = a\<lparr>console := console a @ [Snooping]\<rparr>;
          a2 = processAllFiles_loop a1 (getMarkdownFiles a1)
      in a2\<lparr>console := console a2 @ [NoMoreSnooping]\<rparr>)"

fun convertWordsToTags_loop ::
  "string list \<Rightarrow> string \<Rightarrow> string \<Rightarrow> bool \<Rightarrow> error + string \<times> bool" where
  \<comment> \<open>the loop of \<open>convertWordsToTags\<close>: \<open>text\<close> is the constant read before the loop,
      \<open>editor\<close> the buffer that \<open>setValue\<close> overwrites\<close>
  "convertWordsToTags_loop [] text editor changed = Inr (editor, changed)"
| "convertWordsToTags_loop (tag # rest) text editor changed =
     (let word = toLowerCase (slice1 tag);
          escapedWord = escapeRegExp word
      in case RegExp_new (tag_pattern escapedWord) of
           Inl e \<Rightarrow> Inl e
         | Inr regex \<Rightarrow>
             (let newText = replace text regex (CHR ''#'' # word)
              in if newText \<noteq> text
                 then convertWordsToTags_loop rest text newText True
                 else convertWordsToTags_loop rest text editor changed))"

definition convertWordsToTags :: "app \<Rightarrow> string \<Rightarrow> error + string" where
  \<comment> \<open>from the editor's buffer to the buffer it leaves\<close>
  "convertWordsToTags a editor =
     map_sum id fst (convertWordsToTags_loop (tags a) editor editor False)"

section \<open>Notions of the statements\<close>

text \<open>
  The rule built for a bare word, where it matches, and the other notions in which
  the properties below are stated.
\<close>

definition tag_regex :: "string \<Rightarrow> node list" where
  \<comment> \<open>what \<open>new RegExp\<close> answers for the pattern of a bare word\<close>
  "tag_regex word =
     NegLookbehind (CHR ''#'') # WordBoundary # map PatternChar word @ [WordBoundary]"

definition tag_match :: "string \<Rightarrow> string \<Rightarrow> string \<Rightarrow> bool" where
  \<comment> \<open>the rule of a bare word matches between \<open>pre\<close> and \<open>rest\<close>\<close>
  "tag_match word pre rest =
     (\<not> (pre \<noteq> [] \<and> last pre = CHR ''#'')
      \<and> isWordBefore pre \<noteq> isWordAt rest
      \<and> length word \<le> length rest
      \<and> list_all2 ci_eq (take (length word) rest) word
      \<and> isWordBefore (pre @ take (length word) rest) \<noteq> isWordAt (drop (length word) rest))"

definition quiet :: "string \<Rightarrow> string \<Rightarrow> string \<Rightarrow> bool" where
  \<comment> \<open>the rule of a bare word matches nowhere in \<open>rest\<close>, the text before being \<open>pre\<close>\<close>
  "quiet word pre rest = (\<forall>a b. rest = a @ b \<longrightarrow> \<not> tag_match word (pre @ a) b)"

definition wordy :: "string \<Rightarrow> bool" where
  \<comment> \<open>a bare word that is not empty and holds word characters only\<close>
  "wordy w = (w \<noteq> [] \<and> list_all isWordChar w)"

definition free_start :: "string \<Rightarrow> bool" where
  \<comment> \<open>the text before a position ends neither in a word character nor in #\<close>
  "free_start pre = (pre = [] \<or> (\<not> isWordChar (last pre) \<and> last pre \<noteq> CHR ''#''))"

definition pass_loop :: "string \<Rightarrow> string \<Rightarrow> string \<Rightarrow> string" where
  \<comment> \<open>the replacement of one tag, from the position after \<open>pre\<close> on\<close>
  "pass_loop w pre rest = replace_loop (tag_regex w) (CHR ''#'' # w) pre rest"

definition occurs_here :: "string \<Rightarrow> string \<Rightarrow> bool" where
  \<comment> \<open>\<open>rest\<close> starts with the bare word, in any casing\<close>
  "occurs_here word rest =
     (length word \<le> length rest \<and> list_all2 ci_eq (take (length word) rest) word)"

fun tagged_everywhere :: "string \<Rightarrow> string \<Rightarrow> string \<Rightarrow> bool" where
  \<comment> \<open>every occurrence of the bare word in \<open>rest\<close> comes right after a #\<close>
  "tagged_everywhere word pre [] =
     (occurs_here word [] \<longrightarrow> pre \<noteq> [] \<and> last pre = CHR ''#'')"
| "tagged_everywhere word pre (c # cs) =
     ((occurs_here word (c # cs) \<longrightarrow> pre \<noteq> [] \<and> last pre = CHR ''#'')
      \<and> tagged_everywhere word (pre @ [c]) cs)"

fun untagged_occurrence :: "string \<Rightarrow> string \<Rightarrow> string \<Rightarrow> bool" where
  \<comment> \<open>somewhere in \<open>rest\<close> a whole run of word characters is the bare word, in any
      casing, and the text before it ends neither in a word character nor in #\<close>
  "untagged_occurrence word pre [] = False"
| "untagged_occurrence word pre (c # cs) =
     ((free_start pre \<and> list_all2 ci_eq (takeWhile isWordChar (c # cs)) word)
      \<or> untagged_occurrence word (pre @ [c]) cs)"

definition cache_tags_of :: "app \<Rightarrow> TFile \<Rightarrow> string set" where
  \<comment> \<open>the tags the metadata cache holds for one file\<close>
  "cache_tags_of a file =
     (case fileCache a (path file) of Some (Some ts) \<Rightarrow> set ts | _ \<Rightarrow> {})"

text \<open>The vaults of the examples.\<close>

definition build_cmd :: TFile where
  "build_cmd = \<lparr>path = ''build.cmd'', basename = ''build'', extension = ''cmd''\<rparr>"

definition cmd_vault :: app where
  "cmd_vault =
     \<lparr>tags = [''#project''], files = [build_cmd],
      data = [''build.cmd'' \<mapsto> ''echo project''],
      unreadable = {}, unwritable = {}, fileCache = Map.empty, console = [], vault_io = []\<rparr>"

definition abc_vault :: app where
  "abc_vault =
     \<lparr>tags = [''#project''],
      files = [\<lparr>path = ''A.md'', basename = ''A'', extension = ''md''\<rparr>,
               \<lparr>path = ''B.md'', basename = ''B'', extension = ''md''\<rparr>,
               \<lparr>path = ''C.md'', basename = ''C'', extension = ''md''\<rparr>],
      data = [''A.md'' \<mapsto> ''project A'', ''B.md'' \<mapsto> ''Project B'', ''C.md'' \<mapsto> ''project C''],
      unreadable = {}, unwritable = {''B.md''}, fileCache = Map.empty,
      console = [], vault_io = []\<rparr>"

section \<open>The rule of one tag\<close>

declare replace_loop.simps [simp del]

lemma RegExp_new_escaped:
  "RegExp_new (escapeRegExp w @ [backslash, CHR ''b'']) = Inr (map PatternChar w @ [WordBoundary])"
  by (induction w) (auto simp: isSyntaxCharacter_def backslash_def)

lemma RegExp_new_tag_pattern:
  "RegExp_new (tag_pattern (escapeRegExp w)) = Inr (tag_regex w)"
  using RegExp_new_escaped [of w]
  by (simp add: tag_pattern_def tag_regex_def isSyntaxCharacter_def backslash_def)

lemma ci_eq_hash: "ci_eq c (CHR ''#'') \<longleftrightarrow> c = CHR ''#''"
proof
  assume "ci_eq c (CHR ''#'')"
  then have "(of_char c :: nat) = of_char (CHR ''#'')"
    by (auto simp: ci_eq_def Canonicalize_def Let_def split: if_splits)
  then show "c = CHR ''#''"
    by (simp only: of_char_eq_iff)
next
  assume "c = CHR ''#''"
  then show "ci_eq c (CHR ''#'')"
    by (simp add: ci_eq_def)
qed

lemma match_chars:
  "match_nodes (map PatternChar w @ ns) pre rest =
     (if length w \<le> length rest \<and> list_all2 ci_eq (take (length w) rest) w
      then map_option (\<lambda>n. length w + n)
             (match_nodes ns (pre @ take (length w) rest) (drop (length w) rest))
      else None)"
proof (induction w arbitrary: pre rest)
  case Nil
  then show ?case
    by (cases "match_nodes ns pre rest") simp_all
next
  case (Cons c w)
  show ?case
  proof (cases rest)
    case Nil
    then show ?thesis by simp
  next
    case (Cons d ds)
    then show ?thesis
      by (simp add: Cons.IH option.map_comp comp_def)
  qed
qed

lemma match_tag_regex:
  "match_nodes (tag_regex w) pre rest = (if tag_match w pre rest then Some (length w) else None)"
  by (simp add: tag_regex_def tag_match_def match_chars ci_eq_hash)

lemma replace_loop_Nil:
  "replace_loop (tag_regex w) t pre [] =
     (if tag_match w pre [] then GetSubstitution [] pre [] t else [])"
  by (auto simp: replace_loop.simps [of _ _ _ "[]"] match_tag_regex tag_match_def)

lemma replace_loop_miss:
  "\<not> tag_match w pre (c # cs) \<Longrightarrow>
   replace_loop (tag_regex w) t pre (c # cs) = c # replace_loop (tag_regex w) t (pre @ [c]) cs"
  by (simp add: replace_loop.simps [of _ _ _ "c # cs"] match_tag_regex)

lemma replace_loop_hit:
  "tag_match w pre rest \<Longrightarrow> w \<noteq> [] \<Longrightarrow>
   replace_loop (tag_regex w) t pre rest =
     GetSubstitution (take (length w) rest) pre (drop (length w) rest) t @
     replace_loop (tag_regex w) t (pre @ take (length w) rest) (drop (length w) rest)"
  by (simp add: replace_loop.simps [of _ _ _ rest] match_tag_regex)

lemma quiet_Nil: "quiet w pre [] = (\<not> tag_match w pre [])"
  by (simp add: quiet_def)

lemma quiet_Cons:
  "quiet w pre (c # cs) = (\<not> tag_match w pre (c # cs) \<and> quiet w (pre @ [c]) cs)"
  by (auto simp: quiet_def Cons_eq_append_conv)

lemma quiet_replace_loop:
  "quiet w pre rest \<Longrightarrow> replace_loop (tag_regex w) t pre rest = rest"
  by (induction rest arbitrary: pre)
     (simp_all add: quiet_Nil quiet_Cons replace_loop_Nil replace_loop_miss)

lemma processFile_loop_Cons:
  "processFile_loop (tag # rest) newContent changed =
     (let word = toLowerCase (slice1 tag);
          updatedContent = replace newContent (tag_regex word) (CHR ''#'' # word)
      in if updatedContent \<noteq> newContent
         then processFile_loop rest updatedContent True
         else processFile_loop rest newContent changed)"
  by (simp add: RegExp_new_tag_pattern Let_def)

lemma processFile_loop_quiet:
  "\<forall>tag \<in> set ts. quiet (toLowerCase (slice1 tag)) [] s \<Longrightarrow>
   processFile_loop ts s changed = Inr (s, changed)"
  by (induction ts) (simp_all add: processFile_loop_Cons replace_def quiet_replace_loop
        del: processFile_loop.simps(2))

section \<open>The registry\<close>

lemma set_push_tags: "set (push_tags acc ts) = set acc \<union> set ts"
  by (induction ts arbitrary: acc) auto

lemma distinct_push_tags: "distinct acc \<Longrightarrow> distinct (push_tags acc ts)"
  by (induction ts arbitrary: acc) auto

lemma set_updateTags_loop:
  "set (updateTags_loop a fs acc) = set acc \<union> \<Union> (cache_tags_of a ` set fs)"
  by (induction fs arbitrary: acc)
     (auto simp: cache_tags_of_def set_push_tags split: option.splits)

lemma distinct_updateTags_loop:
  "distinct acc \<Longrightarrow> distinct (updateTags_loop a fs acc)"
  by (induction fs arbitrary: acc) (auto simp: distinct_push_tags split: option.splits)

lemma updateTags_loop_cong:
  "fileCache a = fileCache b \<Longrightarrow> updateTags_loop a fs acc = updateTags_loop b fs acc"
  by (induction fs arbitrary: acc) (auto split: option.splits)

lemma tags_updateTags:
  "tags (updateTags a) = updateTags_loop a (getMarkdownFiles a) []"
  by (simp add: updateTags_def Let_def)

text \<open>
  C6. A refresh replaces the registry by the distinct tags of the markdown files'
  caches: the members are exactly the cached tags, no tag is held twice, the registry's
  earlier contents play no part, a second refresh over the same documents gives the
  same list, and two documents tagged #a, #b and #b, #c give #a, #b, #c.
\<close>

theorem updateTags_rebuilds_registry:
  "set (tags (updateTags a)) = \<Union> (cache_tags_of a ` set (getMarkdownFiles a))
   \<and> distinct (tags (updateTags a))
   \<and> tags (updateTags (a\<lparr>tags := old\<rparr>)) = tags (updateTags a)
   \<and> tags (updateTags (updateTags a)) = tags (updateTags a)
   \<and> tags (updateTags
        \<lparr>tags = old,
         files = [\<lparr>path = ''one.md'', basename = ''one'', extension = ''md''\<rparr>,
                  \<lparr>path = ''two.md'', basename = ''two'', extension = ''md''\<rparr>],
         data = d, unreadable = ur, unwritable = uw,
         fileCache = [''one.md'' \<mapsto> Some [''#a'', ''#b''], ''two.md'' \<mapsto> Some [''#b'', ''#c'']],
         console = c, vault_io = v\<rparr>) = [''#a'', ''#b'', ''#c'']"
proof -
  have 1: "set (tags (updateTags a)) = \<Union> (cache_tags_of a ` set (getMarkdownFiles a))"
    by (simp add: tags_updateTags set_updateTags_loop)
  have 2: "distinct (tags (updateTags a))"
    by (simp add: tags_updateTags distinct_updateTags_loop)
  have g: "tags (updateTags b) = tags (updateTags a)"
    if c: "fileCache b = fileCache a" and f: "files b = files a" for b
  proof -
    have "getMarkdownFiles b = getMarkdownFiles a"
      using f by (simp add: getMarkdownFiles_def)
    then show ?thesis
      using updateTags_loop_cong [OF c] by (simp add: tags_updateTags)
  qed
  have 3: "tags (updateTags (a\<lparr>tags := old\<rparr>)) = tags (updateTags a)"
    by (rule g) simp_all
  have 4: "tags (updateTags (updateTags a)) = tags (updateTags a)"
    by (rule g) (simp_all add: updateTags_def Let_def)
  have 5: "tags (updateTags
        \<lparr>tags = old,
         files = [\<lparr>path = ''one.md'', basename = ''one'', extension = ''md''\<rparr>,
                  \<lparr>path = ''two.md'', basename = ''two'', extension = ''md''\<rparr>],
         data = d, unreadable = ur, unwritable = uw,
         fileCache = [''one.md'' \<mapsto> Some [''#a'', ''#b''], ''two.md'' \<mapsto> Some [''#b'', ''#c'']],
         console = c, vault_io = v\<rparr>) = [''#a'', ''#b'', ''#c'']"
    by (simp add: tags_updateTags getMarkdownFiles_def)
  from 1 2 3 4 5 show ?thesis
    by blast
qed

section \<open>Tags without a bare word\<close>

lemma not_isWordBefore: "\<forall>c \<in> set p. \<not> isWordChar c \<Longrightarrow> \<not> isWordBefore p"
  using last_in_set [of p] by (auto simp: isWordBefore_def)

lemma not_isWordAt: "\<forall>c \<in> set r. \<not> isWordChar c \<Longrightarrow> \<not> isWordAt r"
  using hd_in_set [of r] by (auto simp: isWordAt_def)

lemma no_word_chars_quiet:
  assumes "\<forall>c \<in> set (pre @ rest). \<not> isWordChar c"
  shows "quiet w pre rest"
  unfolding quiet_def
proof (intro allI impI)
  fix a b
  assume "rest = a @ b"
  with assms have "\<not> isWordBefore (pre @ a)" and "\<not> isWordAt b"
    by (auto intro!: not_isWordBefore not_isWordAt)
  then show "\<not> tag_match w (pre @ a) b"
    by (simp add: tag_match_def)
qed

text \<open>
  C2, as stated, fails: the tag # has the empty bare word and is not skipped; the pass
  puts a # at both ends of hello and reports a change.
\<close>

theorem empty_bare_word_counterexample:
  "slice1 ''#'' = [] \<and> processFile_loop [''#''] ''hello'' False = Inr (''#hello#'', True)"
  by code_simp

text \<open>
  C2, amended. A tag whose bare word is empty is not skipped: its rule matches the empty
  string exactly at the word boundaries that do not come right after a #, so not at
  every position; and a pass whose tags all have an empty bare word gives back a text
  without word characters unchanged, with changed = false.
\<close>

theorem empty_bare_word_rule:
  "(slice1 tag = [] \<longrightarrow>
      RegExp_new (tag_pattern (escapeRegExp (toLowerCase (slice1 tag)))) = Inr re \<longrightarrow>
      match_nodes re pre rest =
        (if isWordBefore pre \<noteq> isWordAt rest \<and> \<not> (pre \<noteq> [] \<and> last pre = CHR ''#'')
         then Some 0 else None))
   \<and> ((\<forall>t \<in> set ts. slice1 t = []) \<and> (\<forall>c \<in> set text. \<not> isWordChar c) \<longrightarrow>
      processFile_loop ts text False = Inr (text, False))"
proof (intro conjI impI)
  assume e: "slice1 tag = []"
    and r: "RegExp_new (tag_pattern (escapeRegExp (toLowerCase (slice1 tag)))) = Inr re"
  from e r have "re = tag_regex []"
    using RegExp_new_tag_pattern [of "[]"] by (simp add: toLowerCase_def)
  then show "match_nodes re pre rest =
        (if isWordBefore pre \<noteq> isWordAt rest \<and> \<not> (pre \<noteq> [] \<and> last pre = CHR ''#'')
         then Some 0 else None)"
    by (auto simp: match_tag_regex tag_match_def)
next
  assume "(\<forall>t \<in> set ts. slice1 t = []) \<and> (\<forall>c \<in> set text. \<not> isWordChar c)"
  then have "\<forall>t \<in> set ts. quiet (toLowerCase (slice1 t)) [] text"
    by (simp add: no_word_chars_quiet)
  then show "processFile_loop ts text False = Inr (text, False)"
    by (rule processFile_loop_quiet)
qed

theorem empty_bare_word_rule_witness:
  "slice1 ''#'' = []
   \<and> RegExp_new (tag_pattern (escapeRegExp (toLowerCase (slice1 ''#'')))) = Inr (tag_regex [])
   \<and> match_nodes (tag_regex []) ''a'' ''b'' = None
   \<and> match_nodes (tag_regex []) ''a'' '' b'' = Some 0
   \<and> processFile_loop [''#'', ''''] ''+-- (!)'' False = Inr (''+-- (!)'', False)"
proof -
  have e: "slice1 ''#'' = []"
    by (simp add: slice1_def)
  have r: "RegExp_new (tag_pattern (escapeRegExp (toLowerCase (slice1 ''#'')))) = Inr (tag_regex [])"
    using RegExp_new_tag_pattern [of "[]"] by (simp add: slice1_def toLowerCase_def)
  have t: "\<forall>t \<in> set [''#'', '''']. slice1 t = []"
    by (simp add: slice1_def)
  have c: "\<forall>c \<in> set ''+-- (!)''. \<not> isWordChar c"
    by (simp add: isWordChar_def)
  show ?thesis
    using e r t c
      empty_bare_word_rule [of "''#''" "tag_regex []" "''a''" "''b''" "[''#'', '''']" "''+-- (!)''"]
      empty_bare_word_rule [of "''#''" "tag_regex []" "''a''" "'' b''" "[''#'', '''']" "''+-- (!)''"]
    by (simp add: isWordBefore_def isWordAt_def isWordChar_def)
qed

section \<open>Inputs on which the code leaves the specification\<close>

text \<open>
  C1. The two call sites differ: with the tags #a and #b on the text a b, the loop of
  processFile accumulates both replacements, while convertWordsToTags replaces in the
  unchanged text each time and leaves the buffer with the last replacement only.
\<close>

theorem editor_pass_keeps_last_replacement_only:
  "processFile_loop [''#a'', ''#b''] ''a b'' False = Inr (''#a #b'', True)
   \<and> convertWordsToTags_loop [''#a'', ''#b''] ''a b'' ''a b'' False = Inr (''a #b'', True)
   \<and> convertWordsToTags (a\<lparr>tags := [''#a'', ''#b'']\<rparr>) ''a b'' = Inr ''a #b''"
proof -
  have p: "processFile_loop [''#a'', ''#b''] ''a b'' False = Inr (''#a #b'', True)"
    by code_simp
  have c: "convertWordsToTags_loop [''#a'', ''#b''] ''a b'' ''a b'' False = Inr (''a #b'', True)"
    by code_simp
  from c have "convertWordsToTags (a\<lparr>tags := [''#a'', ''#b'']\<rparr>) ''a b'' = Inr ''a #b''"
    by (simp add: convertWordsToTags_def del: convertWordsToTags_loop.simps)
  with p c show ?thesis
    by blast
qed

text \<open>
  C3. The rule of #c++ is built without an error, yet it ends in a word boundary after
  +, which holds only before a word character: a standalone c++ is left as it is, and
  c++ is rewritten only where a word character follows it.
\<close>

theorem cpp_standalone_not_rewritten:
  "RegExp_new (tag_pattern (escapeRegExp (toLowerCase (slice1 ''#c++'')))) = Inr (tag_regex ''c++'')
   \<and> processFile_loop [''#c++''] ''I use c++ daily'' False = Inr (''I use c++ daily'', False)
   \<and> processFile_loop [''#c++''] ''c++'' False = Inr (''c++'', False)
   \<and> processFile_loop [''#c++''] ''in c++11'' False = Inr (''in #c++11'', True)"
proof -
  have "toLowerCase (slice1 ''#c++'') = ''c++''"
    by (simp add: toLowerCase_def slice1_def toLowerCase_char_def)
  then have "RegExp_new (tag_pattern (escapeRegExp (toLowerCase (slice1 ''#c++''))))
      = Inr (tag_regex ''c++'')"
    by (simp only: RegExp_new_tag_pattern)
  moreover have "processFile_loop [''#c++''] ''I use c++ daily'' False
      = Inr (''I use c++ daily'', False)"
    by code_simp
  moreover have "processFile_loop [''#c++''] ''c++'' False = Inr (''c++'', False)"
    by code_simp
  moreover have "processFile_loop [''#c++''] ''in c++11'' False = Inr (''in #c++11'', True)"
    by code_simp
  ultimately show ?thesis
    by blast
qed

text \<open>
  C10. The replacement is a template: for the tag #a$$b the occurrence a$$b is replaced
  by #a$b, the pair $$ standing for one $, and not by # and the bare word.
\<close>

theorem dollar_in_bare_word_is_expanded:
  "processFile_loop [''#a$$b''] ''a$$b'' False = Inr (''#a$b'', True)
   \<and> convertWordsToTags_loop [''#a$$b''] ''a$$b'' ''a$$b'' False = Inr (''#a$b'', True)"
  by code_simp

text \<open>
  C9. processFile lets a file through when its extension contains md: build.cmd is not
  a markdown file, and it is read and rewritten.
\<close>

theorem processFile_rewrites_cmd_file:
  "extension build_cmd \<noteq> ''md''
   \<and> vault_io (processFile cmd_vault build_cmd)
       = [Read ''build.cmd'', Modify ''build.cmd'' ''echo #project'']
   \<and> data (processFile cmd_vault build_cmd) ''build.cmd'' = Some ''echo #project''"
proof -
  have l: "processFile_loop [''#project''] ''echo project'' False = Inr (''echo #project'', True)"
    by code_simp
  show ?thesis
    by (simp add: processFile_def build_cmd_def cmd_vault_def vault_read_def vault_modify_def l
          del: processFile_loop.simps)
qed

section \<open>The scan of all files\<close>

lemma processFile_loop_total:
  "\<exists>newContent ch. processFile_loop ts s c = Inr (newContent, ch)"
  by (induction ts arbitrary: s c)
     (simp_all add: processFile_loop_Cons Let_def del: processFile_loop.simps(2))

lemma processFile_loop_unchanged:
  "processFile_loop ts s c = Inr (newContent, False) \<Longrightarrow> newContent = s \<and> \<not> c"
  by (induction ts arbitrary: s c)
     (auto simp: processFile_loop_Cons Let_def simp del: processFile_loop.simps(2)
           split: if_splits)

lemma processFile_frame:
  "tags (processFile a f) = tags a \<and> unreadable (processFile a f) = unreadable a
   \<and> unwritable (processFile a f) = unwritable a"
  by (auto simp: processFile_def vault_read_def vault_modify_def Let_def
           split: sum.splits prod.splits if_splits)

lemma processFile_data_other:
  "p \<noteq> path f \<Longrightarrow> data (processFile a f) p = data a p"
  by (auto simp: processFile_def vault_read_def vault_modify_def Let_def
           split: sum.splits prod.splits if_splits)

lemma processFile_data_unwritable:
  "p \<in> unwritable a \<Longrightarrow> data (processFile a f) p = data a p"
  by (auto simp: processFile_def vault_read_def vault_modify_def Let_def
           split: sum.splits prod.splits if_splits)

lemma processFile_console_mono:
  "set (console a) \<subseteq> set (console (processFile a f))"
  by (auto simp: processFile_def vault_read_def vault_modify_def Let_def
           split: sum.splits prod.splits if_splits)

lemma processFile_rewrites:
  assumes "includes_str (extension f) ''md''"
    and "path f \<notin> unreadable a" and "path f \<notin> unwritable a"
    and "data a (path f) = Some body"
    and "processFile_loop (tags a) body False = Inr (newContent, ch)"
  shows "data (processFile a f) (path f) = Some newContent"
proof (cases ch)
  case True
  with assms show ?thesis
    by (simp add: processFile_def vault_read_def vault_modify_def)
next
  case False
  with assms(5) have "newContent = body"
    using processFile_loop_unchanged [of "tags a" body False newContent] by simp
  with False assms show ?thesis
    by (simp add: processFile_def vault_read_def vault_modify_def)
qed

lemma processFile_logs_failure:
  assumes "includes_str (extension f) ''md''"
    and "path f \<in> unreadable a
         \<or> (\<exists>body newContent. data a (path f) = Some body \<and> path f \<in> unwritable a
              \<and> processFile_loop (tags a) body False = Inr (newContent, True))"
  shows "Failed (basename f) IOError \<in> set (console (processFile a f))"
  using assms
  by (auto simp: processFile_def vault_read_def vault_modify_def)

lemma loop_data_other:
  "p \<notin> path ` set fs \<Longrightarrow> data (processAllFiles_loop a fs) p = data a p"
  by (induction fs arbitrary: a) (simp_all add: processFile_data_other)

lemma loop_data_unwritable:
  "p \<in> unwritable a \<Longrightarrow> data (processAllFiles_loop a fs) p = data a p"
  by (induction fs arbitrary: a) (simp_all add: processFile_data_unwritable processFile_frame)

lemma loop_console_mono:
  "set (console a) \<subseteq> set (console (processAllFiles_loop a fs))"
proof (induction fs arbitrary: a)
  case Nil
  then show ?case by simp
next
  case (Cons f fs)
  show ?case
    using processFile_console_mono [of a f] Cons.IH [of "processFile a f"] by auto
qed

lemma loop_rewrites:
  assumes "distinct (map path fs)" and "f \<in> set fs"
    and "\<forall>g \<in> set fs. includes_str (extension g) ''md''"
    and "path f \<notin> unreadable a" and "path f \<notin> unwritable a"
    and "data a (path f) = Some body"
    and "processFile_loop (tags a) body False = Inr (newContent, ch)"
  shows "data (processAllFiles_loop a fs) (path f) = Some newContent"
  using assms
proof (induction fs arbitrary: a)
  case Nil
  then show ?case by simp
next
  case (Cons g gs)
  show ?case
  proof (cases "f = g")
    case True
    from Cons.prems have "path g \<notin> path ` set gs"
      by simp
    then have "data (processAllFiles_loop (processFile a g) gs) (path g)
        = data (processFile a g) (path g)"
      by (rule loop_data_other)
    also have "\<dots> = Some newContent"
      using Cons.prems True by (intro processFile_rewrites [where body = body and ch = ch]) auto
    finally show ?thesis
      using True by simp
  next
    case False
    with Cons.prems have in_gs: "f \<in> set gs"
      by auto
    have "path g \<notin> path ` set gs"
      using Cons.prems by simp
    with in_gs have ne: "path f \<noteq> path g"
      by (metis imageI)
    have "data (processAllFiles_loop (processFile a g) gs) (path f) = Some newContent"
    proof (rule Cons.IH)
      show "distinct (map path gs)" using Cons.prems by simp
      show "f \<in> set gs" by (rule in_gs)
      show "\<forall>g \<in> set gs. includes_str (extension g) ''md''" using Cons.prems by simp
      show "path f \<notin> unreadable (processFile a g)"
        using Cons.prems by (simp add: processFile_frame)
      show "path f \<notin> unwritable (processFile a g)"
        using Cons.prems by (simp add: processFile_frame)
      show "data (processFile a g) (path f) = Some body"
        using Cons.prems ne by (simp add: processFile_data_other)
      show "processFile_loop (tags (processFile a g)) body False = Inr (newContent, ch)"
        using Cons.prems by (simp add: processFile_frame)
    qed
    then show ?thesis by simp
  qed
qed

lemma loop_logs_failure:
  assumes "distinct (map path fs)" and "f \<in> set fs"
    and "\<forall>g \<in> set fs. includes_str (extension g) ''md''"
    and "path f \<in> unreadable a
         \<or> (\<exists>body newContent. data a (path f) = Some body \<and> path f \<in> unwritable a
              \<and> processFile_loop (tags a) body False = Inr (newContent, True))"
  shows "Failed (basename f) IOError \<in> set (console (processAllFiles_loop a fs))"
  using assms
proof (induction fs arbitrary: a)
  case Nil
  then show ?case by simp
next
  case (Cons g gs)
  show ?case
  proof (cases "f = g")
    case True
    have "Failed (basename g) IOError \<in> set (console (processFile a g))"
      using Cons.prems True by (intro processFile_logs_failure) auto
    then show ?thesis
      using True loop_console_mono [of "processFile a g" gs] by auto
  next
    case False
    with Cons.prems have in_gs: "f \<in> set gs"
      by auto
    have "path g \<notin> path ` set gs"
      using Cons.prems by simp
    with in_gs have ne: "path f \<noteq> path g"
      by (metis imageI)
    have "Failed (basename f) IOError \<in> set (console (processAllFiles_loop (processFile a g) gs))"
    proof (rule Cons.IH)
      show "distinct (map path gs)" using Cons.prems by simp
      show "f \<in> set gs" by (rule in_gs)
      show "\<forall>g \<in> set gs. includes_str (extension g) ''md''" using Cons.prems by simp
      show "path f \<in> unreadable (processFile a g)
         \<or> (\<exists>body newContent. data (processFile a g) (path f) = Some body
              \<and> path f \<in> unwritable (processFile a g)
              \<and> processFile_loop (tags (processFile a g)) body False = Inr (newContent, True))"
        using Cons.prems(4) ne by (simp add: processFile_frame processFile_data_other)
    qed
    then show ?thesis by simp
  qed
qed

lemma getMarkdownFiles_md: "\<forall>g \<in> set (getMarkdownFiles a). includes_str (extension g) ''md''"
  by (simp add: getMarkdownFiles_def)

lemma processFile_data_unreadable:
  "p \<in> unreadable a \<Longrightarrow> data (processFile a f) p = data a p"
  by (auto simp: processFile_def vault_read_def vault_modify_def Let_def
           split: sum.splits prod.splits if_splits)

lemma loop_data_unreadable:
  "p \<in> unreadable a \<Longrightarrow> data (processAllFiles_loop a fs) p = data a p"
  by (induction fs arbitrary: a) (simp_all add: processFile_data_unreadable processFile_frame)

lemma data_processAllFiles:
  "data (processAllFiles a)
     = data (processAllFiles_loop (a\<lparr>console := console a @ [Snooping]\<rparr>) (getMarkdownFiles a))"
  by (simp add: processAllFiles_def Let_def getMarkdownFiles_def)

lemma console_processAllFiles:
  "set (console (processAllFiles_loop (a\<lparr>console := console a @ [Snooping]\<rparr>)
      (getMarkdownFiles a))) \<subseteq> set (console (processAllFiles a))"
  by (auto simp: processAllFiles_def Let_def getMarkdownFiles_def)

text \<open>
  C7. In a scan of the markdown files (with distinct paths), a file that can be read
  and written ends with the text the pass gives for its body, whatever happens to the
  other files; a file whose read fails, or whose write fails when the pass changed its
  body, keeps its body and gets a line on the console, and the scan goes on.
\<close>

theorem scan_isolates_failures:
  assumes "distinct (map path (getMarkdownFiles a))"
  shows "(file \<in> set (getMarkdownFiles a) \<and> path file \<notin> unreadable a
            \<and> path file \<notin> unwritable a \<and> data a (path file) = Some body \<longrightarrow>
          (\<exists>newContent changed.
              processFile_loop (tags a) body False = Inr (newContent, changed)
              \<and> data (processAllFiles a) (path file) = Some newContent))
       \<and> (bad \<in> set (getMarkdownFiles a)
            \<and> (path bad \<in> unreadable a
                \<or> (\<exists>body newContent. data a (path bad) = Some body \<and> path bad \<in> unwritable a
                     \<and> processFile_loop (tags a) body False = Inr (newContent, True))) \<longrightarrow>
          Failed (basename bad) IOError \<in> set (console (processAllFiles a))
          \<and> data (processAllFiles a) (path bad) = data a (path bad))"
proof (intro conjI impI)
  let ?a1 = "a\<lparr>console := console a @ [Snooping]\<rparr>"
  assume f: "file \<in> set (getMarkdownFiles a) \<and> path file \<notin> unreadable a
      \<and> path file \<notin> unwritable a \<and> data a (path file) = Some body"
  obtain newContent ch where l: "processFile_loop (tags a) body False = Inr (newContent, ch)"
    using processFile_loop_total by blast
  have "data (processAllFiles_loop ?a1 (getMarkdownFiles a)) (path file) = Some newContent"
    using assms f l getMarkdownFiles_md [of a]
    by (intro loop_rewrites [where body = body and ch = ch]) simp_all
  with l show "\<exists>newContent changed.
      processFile_loop (tags a) body False = Inr (newContent, changed)
      \<and> data (processAllFiles a) (path file) = Some newContent"
    by (auto simp: data_processAllFiles)
next
  let ?a1 = "a\<lparr>console := console a @ [Snooping]\<rparr>"
  assume b: "bad \<in> set (getMarkdownFiles a)
      \<and> (path bad \<in> unreadable a
          \<or> (\<exists>body newContent. data a (path bad) = Some body \<and> path bad \<in> unwritable a
               \<and> processFile_loop (tags a) body False = Inr (newContent, True)))"
  have "Failed (basename bad) IOError \<in> set (console (processAllFiles_loop ?a1 (getMarkdownFiles a)))"
    using assms b getMarkdownFiles_md [of a]
    by (intro loop_logs_failure) simp_all
  then show "Failed (basename bad) IOError \<in> set (console (processAllFiles a))"
    using console_processAllFiles [of a] by blast
next
  let ?a1 = "a\<lparr>console := console a @ [Snooping]\<rparr>"
  assume b: "bad \<in> set (getMarkdownFiles a)
      \<and> (path bad \<in> unreadable a
          \<or> (\<exists>body newContent. data a (path bad) = Some body \<and> path bad \<in> unwritable a
               \<and> processFile_loop (tags a) body False = Inr (newContent, True)))"
  then have "path bad \<in> unreadable ?a1 \<or> path bad \<in> unwritable ?a1"
    by auto
  then have "data (processAllFiles_loop ?a1 (getMarkdownFiles a)) (path bad) = data ?a1 (path bad)"
    using loop_data_unreadable loop_data_unwritable by blast
  then show "data (processAllFiles a) (path bad) = data a (path bad)"
    by (simp add: data_processAllFiles)
qed

theorem scan_isolates_failures_witness:
  "distinct (map path (getMarkdownFiles abc_vault))
   \<and> data (processAllFiles abc_vault) ''A.md'' = Some ''#project A''
   \<and> data (processAllFiles abc_vault) ''C.md'' = Some ''#project C''
   \<and> data (processAllFiles abc_vault) ''B.md'' = Some ''Project B''
   \<and> Failed ''B'' IOError \<in> set (console (processAllFiles abc_vault))"
proof -
  have d: "distinct (map path (getMarkdownFiles abc_vault))"
    by (simp add: abc_vault_def getMarkdownFiles_def)
  have la: "processFile_loop [''#project''] ''project A'' False = Inr (''#project A'', True)"
    by code_simp
  have lb: "processFile_loop [''#project''] ''Project B'' False = Inr (''#project B'', True)"
    by code_simp
  have lc: "processFile_loop [''#project''] ''project C'' False = Inr (''#project C'', True)"
    by code_simp
  show ?thesis
    using d la lb lc
      scan_isolates_failures [OF d,
        of "\<lparr>path = ''A.md'', basename = ''A'', extension = ''md''\<rparr>" "''project A''"
           "\<lparr>path = ''B.md'', basename = ''B'', extension = ''md''\<rparr>"]
      scan_isolates_failures [OF d,
        of "\<lparr>path = ''C.md'', basename = ''C'', extension = ''md''\<rparr>" "''project C''"
           "\<lparr>path = ''B.md'', basename = ''B'', extension = ''md''\<rparr>"]
    by (simp add: abc_vault_def getMarkdownFiles_def del: processFile_loop.simps)
qed

section \<open>Bare words of word characters\<close>

lemma Canonicalize_word:
  assumes "isWordChar c"
  shows "Canonicalize c \<le> 95"
proof -
  define m where "m = (of_char c :: nat)"
  from assms have w: "(48 \<le> m \<and> m \<le> 57) \<or> (65 \<le> m \<and> m \<le> 90) \<or> m = 95 \<or> (97 \<le> m \<and> m \<le> 122)"
    unfolding isWordChar_def Let_def m_def .
  have c: "Canonicalize c = (if (97 \<le> m \<and> m \<le> 122) \<or> (224 \<le> m \<and> m \<le> 254 \<and> m \<noteq> 247)
      then m - 32 else if m = 181 then 924 else if m = 255 then 376 else m)"
    unfolding Canonicalize_def Let_def m_def ..
  show ?thesis
  proof (cases "97 \<le> m")
    case True
    with w have "m \<le> 122" by simp
    with True c have "Canonicalize c = m - 32" by simp
    with \<open>m \<le> 122\<close> show ?thesis by simp
  next
    case False
    with c have "Canonicalize c = m" by simp
    moreover from False w have "m \<le> 95" by arith
    ultimately show ?thesis by simp
  qed
qed

lemma Canonicalize_low:
  assumes "Canonicalize d \<le> 95"
  shows "isWordChar d \<longleftrightarrow>
    (48 \<le> Canonicalize d \<and> Canonicalize d \<le> 57)
    \<or> (65 \<le> Canonicalize d \<and> Canonicalize d \<le> 90) \<or> Canonicalize d = 95"
proof -
  define n where "n = (of_char d :: nat)"
  have w: "isWordChar d \<longleftrightarrow>
      (48 \<le> n \<and> n \<le> 57) \<or> (65 \<le> n \<and> n \<le> 90) \<or> n = 95 \<or> (97 \<le> n \<and> n \<le> 122)"
    unfolding isWordChar_def Let_def n_def ..
  have c: "Canonicalize d = (if (97 \<le> n \<and> n \<le> 122) \<or> (224 \<le> n \<and> n \<le> 254 \<and> n \<noteq> 247)
      then n - 32 else if n = 181 then 924 else if n = 255 then 376 else n)"
    unfolding Canonicalize_def Let_def n_def ..
  show ?thesis
  proof (cases "97 \<le> n \<and> n \<le> 122")
    case True
    with c have "Canonicalize d = n - 32" by simp
    with True w show ?thesis by simp arith
  next
    case False
    show ?thesis
    proof (cases "n \<le> 95")
      case True
      with False c have "Canonicalize d = n" by simp
      with True w show ?thesis by simp
    next
      case big: False
      have "95 < Canonicalize d"
      proof (cases "224 \<le> n \<and> n \<le> 254 \<and> n \<noteq> 247")
        case True
        with c have "Canonicalize d = n - 32" by simp
        moreover from True have "95 < n - 32" by arith
        ultimately show ?thesis by simp
      next
        case no: False
        with False c have "Canonicalize d = (if n = 181 then 924 else if n = 255 then 376 else n)"
          by auto
        with big show ?thesis by auto
      qed
      with assms show ?thesis by simp
    qed
  qed
qed

lemma ci_eq_word: "ci_eq d c \<Longrightarrow> isWordChar c \<Longrightarrow> isWordChar d"
proof -
  assume e: "ci_eq d c" and w: "isWordChar c"
  from w have c: "Canonicalize c \<le> 95"
    by (rule Canonicalize_word)
  from e have ed: "Canonicalize d = Canonicalize c"
    by (simp add: ci_eq_def)
  from w Canonicalize_low [OF c] have "(48 \<le> Canonicalize c \<and> Canonicalize c \<le> 57)
      \<or> (65 \<le> Canonicalize c \<and> Canonicalize c \<le> 90) \<or> Canonicalize c = 95"
    by simp
  with ed c Canonicalize_low [of d] show "isWordChar d"
    by simp
qed

lemma ci_eq_words: "list_all2 ci_eq xs w \<Longrightarrow> list_all isWordChar w \<Longrightarrow> list_all isWordChar xs"
  by (induction xs w rule: list_all2_induct) (auto intro: ci_eq_word)

lemma toLowerCase_char_word:
  assumes "isWordChar c"
  shows "isWordChar (toLowerCase_char c)"
proof -
  define m where "m = (of_char c :: nat)"
  from assms have w: "(48 \<le> m \<and> m \<le> 57) \<or> (65 \<le> m \<and> m \<le> 90) \<or> m = 95 \<or> (97 \<le> m \<and> m \<le> 122)"
    unfolding isWordChar_def Let_def m_def .
  have l: "toLowerCase_char c = (if (65 \<le> m \<and> m \<le> 90) \<or> (192 \<le> m \<and> m \<le> 222 \<and> m \<noteq> 215)
      then char_of (m + 32) else c)"
    unfolding toLowerCase_char_def Let_def m_def ..
  show ?thesis
  proof (cases "65 \<le> m \<and> m \<le> 90")
    case True
    with l have "toLowerCase_char c = char_of (m + 32)"
      by simp
    moreover have "(of_char (char_of (m + 32)) :: nat) = m + 32"
      using True by simp
    ultimately show ?thesis
      using True unfolding isWordChar_def Let_def by simp
  next
    case False
    with w have "\<not> 192 \<le> m" by arith
    with False l have "toLowerCase_char c = c" by auto
    with assms show ?thesis by simp
  qed
qed

lemma wordy_toLowerCase: "wordy w \<Longrightarrow> wordy (toLowerCase w)"
  by (auto simp: wordy_def toLowerCase_def list_all_iff toLowerCase_char_word)

lemma GetSubstitution_plain:
  "CHR ''$'' \<notin> set t \<Longrightarrow> GetSubstitution m p f t = t"
  by (induction m p f t rule: GetSubstitution.induct) auto

lemma GetSubstitution_wordy:
  "wordy w \<Longrightarrow> GetSubstitution m p f (CHR ''#'' # w) = CHR ''#'' # w"
proof -
  assume "wordy w"
  then have "CHR ''$'' \<notin> set w"
    by (auto simp: wordy_def list_all_iff isWordChar_def)
  then show ?thesis
    by (intro GetSubstitution_plain) simp
qed

lemma isWordAt_takeWhile: "isWordAt rest \<longleftrightarrow> takeWhile isWordChar rest \<noteq> []"
  by (cases rest) (simp_all add: isWordAt_def)

lemma not_isWordAt_dropWhile: "\<not> isWordAt (dropWhile isWordChar rest)"
  using hd_dropWhile [of isWordChar rest] by (auto simp: isWordAt_def)

lemma takeWhile_take_drop:
  assumes "n \<le> length rest" and "list_all isWordChar (take n rest)"
    and "\<not> isWordAt (drop n rest)"
  shows "takeWhile isWordChar rest = take n rest"
proof -
  have "takeWhile isWordChar (take n rest @ drop n rest)
      = take n rest @ takeWhile isWordChar (drop n rest)"
    using assms(2) by (intro takeWhile_append2) (simp add: list_all_iff)
  moreover have "takeWhile isWordChar (drop n rest) = []"
    using assms(3) by (simp add: isWordAt_takeWhile)
  ultimately show ?thesis
    by simp
qed

lemma isWordBefore_append_words:
  "xs \<noteq> [] \<Longrightarrow> list_all isWordChar xs \<Longrightarrow> isWordBefore (pre @ xs)"
  using last_in_set [of xs] by (auto simp: isWordBefore_def list_all_iff)

lemma free_start_iff:
  "free_start pre \<longleftrightarrow> \<not> (pre \<noteq> [] \<and> last pre = CHR ''#'') \<and> \<not> isWordBefore pre"
  by (auto simp: free_start_def isWordBefore_def)

lemma tag_match_wordy:
  assumes "wordy w"
  shows "tag_match w pre rest
    \<longleftrightarrow> free_start pre \<and> list_all2 ci_eq (takeWhile isWordChar rest) w"
proof
  assume m: "tag_match w pre rest"
  let ?X = "take (length w) rest"
  from m have len: "length w \<le> length rest" and ci: "list_all2 ci_eq ?X w"
    by (simp_all add: tag_match_def)
  from ci assms have words: "list_all isWordChar ?X"
    by (auto simp: wordy_def intro: ci_eq_words)
  from assms len have ne: "?X \<noteq> []"
    by (auto simp: wordy_def)
  from ne words have "isWordAt rest"
    by (cases rest; cases w) (auto simp: isWordAt_def)
  with m have fs: "free_start pre"
    by (simp add: tag_match_def free_start_iff)
  from ne words have "isWordBefore (pre @ ?X)"
    by (rule isWordBefore_append_words)
  with m have "\<not> isWordAt (drop (length w) rest)"
    by (simp add: tag_match_def)
  with len words have "takeWhile isWordChar rest = ?X"
    by (intro takeWhile_take_drop)
  with fs ci show "free_start pre \<and> list_all2 ci_eq (takeWhile isWordChar rest) w"
    by simp
next
  let ?T = "takeWhile isWordChar rest"
  assume a: "free_start pre \<and> list_all2 ci_eq ?T w"
  then have len: "length ?T = length w"
    by (auto dest: list_all2_lengthD)
  have T: "?T = take (length w) rest"
    using takeWhile_eq_take [of isWordChar rest] len by simp
  have D: "dropWhile isWordChar rest = drop (length w) rest"
    using dropWhile_eq_drop [of isWordChar rest] len by simp
  from len assms have ne: "?T \<noteq> []"
    by (auto simp: wordy_def)
  have words: "list_all isWordChar ?T"
    by (auto simp: list_all_iff dest: set_takeWhileD)
  have 1: "isWordAt rest"
    using ne by (simp add: isWordAt_takeWhile)
  have 2: "length w \<le> length rest"
    using len length_takeWhile_le [of isWordChar rest] by simp
  have 3: "isWordBefore (pre @ take (length w) rest)"
    using isWordBefore_append_words [OF ne words] T by simp
  have 4: "\<not> isWordAt (drop (length w) rest)"
    using not_isWordAt_dropWhile [of rest] D by simp
  from a 1 2 3 4 T show "tag_match w pre rest"
    by (simp add: tag_match_def free_start_iff)
qed

lemma tag_match_Nil: "wordy w \<Longrightarrow> \<not> tag_match w pre []"
  by (simp add: tag_match_def wordy_def)

lemma not_free_start_word: "isWordChar c \<Longrightarrow> \<not> free_start (pre @ [c])"
  by (simp add: free_start_def)

lemma not_free_start_words:
  "xs \<noteq> [] \<Longrightarrow> list_all isWordChar xs \<Longrightarrow> \<not> free_start (pre @ xs)"
  using isWordBefore_append_words [of xs pre] by (simp add: free_start_iff)

lemma pass_loop_Nil: "wordy w \<Longrightarrow> pass_loop w pre [] = []"
  by (simp add: pass_loop_def replace_loop_Nil tag_match_Nil)

lemma pass_loop_miss:
  "\<not> tag_match w pre (c # cs) \<Longrightarrow> pass_loop w pre (c # cs) = c # pass_loop w (pre @ [c]) cs"
  by (simp add: pass_loop_def replace_loop_miss)

lemma pass_loop_hit:
  assumes "wordy w" and "tag_match w pre rest"
  shows "pass_loop w pre rest
    = CHR ''#'' # w @ pass_loop w (pre @ takeWhile isWordChar rest) (dropWhile isWordChar rest)"
proof -
  from assms have "length (takeWhile isWordChar rest) = length w"
    by (auto simp: tag_match_wordy dest: list_all2_lengthD)
  then have "takeWhile isWordChar rest = take (length w) rest"
    and "dropWhile isWordChar rest = drop (length w) rest"
    using takeWhile_eq_take [of isWordChar rest] dropWhile_eq_drop [of isWordChar rest]
    by simp_all
  moreover from assms have "w \<noteq> []"
    by (simp add: wordy_def)
  ultimately show ?thesis
    using assms by (simp add: pass_loop_def replace_loop_hit GetSubstitution_wordy)
qed

lemma takeWhile_pass_loop:
  "wordy w \<Longrightarrow> \<not> tag_match w pre rest \<Longrightarrow>
   takeWhile isWordChar (pass_loop w pre rest) = takeWhile isWordChar rest"
proof (induction rest arbitrary: pre)
  case Nil
  then show ?case
    by (simp add: pass_loop_Nil)
next
  case (Cons c cs)
  show ?case
  proof (cases "isWordChar c")
    case True
    then have "\<not> tag_match w (pre @ [c]) cs"
      using Cons.prems(1) by (simp add: tag_match_wordy not_free_start_word)
    with Cons have "takeWhile isWordChar (pass_loop w (pre @ [c]) cs) = takeWhile isWordChar cs"
      by simp
    with Cons.prems True show ?thesis
      by (simp add: pass_loop_miss)
  next
    case False
    with Cons.prems show ?thesis
      by (simp add: pass_loop_miss)
  qed
qed

lemma quiet_append:
  assumes "quiet v pre (a @ b)"
  shows "quiet v (pre @ a) b"
  unfolding quiet_def
proof (intro allI impI)
  fix x y
  assume "b = x @ y"
  then have "a @ b = (a @ x) @ y"
    by simp
  with assms have "\<not> tag_match v (pre @ a @ x) y"
    unfolding quiet_def by blast
  then show "\<not> tag_match v ((pre @ a) @ x) y"
    by simp
qed

lemma quiet_in_word:
  "wordy v \<Longrightarrow> \<not> free_start pre \<Longrightarrow> list_all isWordChar xs \<Longrightarrow>
   quiet v (pre @ xs) rest \<Longrightarrow> quiet v pre (xs @ rest)"
proof (induction xs arbitrary: pre)
  case Nil
  then show ?case by simp
next
  case (Cons c xs)
  from Cons.prems have "\<not> free_start (pre @ [c])"
    by (simp add: not_free_start_word)
  with Cons have "quiet v (pre @ [c]) (xs @ rest)"
    by simp
  with Cons.prems show ?case
    by (simp add: quiet_Cons tag_match_wordy)
qed

lemma quiet_after_tag:
  assumes "wordy v" and "wordy w" and "quiet v (pre @ CHR ''#'' # w) rest"
  shows "quiet v pre (CHR ''#'' # w @ rest)"
proof -
  have "\<not> free_start (pre @ [CHR ''#''])"
    by (simp add: free_start_def)
  then have "quiet v (pre @ [CHR ''#'']) (w @ rest)"
    using assms by (intro quiet_in_word) (simp_all add: wordy_def)
  moreover have "\<not> tag_match v pre (CHR ''#'' # w @ rest)"
    using assms(1) by (simp add: tag_match_wordy isWordChar_def wordy_def)
  ultimately show ?thesis
    by (simp add: quiet_Cons)
qed

lemma quiet_pass_loop:
  assumes "wordy w" and "wordy v"
  shows "free_start p = free_start q \<Longrightarrow> v = w \<or> quiet v p s \<Longrightarrow>
    quiet v q (pass_loop w p s)"
proof (induction "length s" arbitrary: s p q rule: less_induct)
  case less
  show ?case
  proof (cases "tag_match w p s")
    case True
    let ?T = "takeWhile isWordChar s" and ?D = "dropWhile isWordChar s"
    from True assms(1) have ci: "list_all2 ci_eq ?T w"
      by (simp add: tag_match_wordy)
    then have "length ?T = length w"
      by (rule list_all2_lengthD)
    with assms(1) have ne: "?T \<noteq> []"
      by (auto simp: wordy_def)
    have words: "list_all isWordChar ?T"
      by (auto simp: list_all_iff dest: set_takeWhileD)
    have s: "s = ?T @ ?D"
      by simp
    have "length s = length ?T + length ?D"
      by (subst s) (simp only: length_append)
    with ne have shorter: "length ?D < length s"
      by simp
    have "\<not> free_start (p @ ?T)"
      using ne words by (rule not_free_start_words)
    moreover have "\<not> free_start ((q @ [CHR ''#'']) @ w)"
      using assms(1) by (intro not_free_start_words) (simp_all add: wordy_def)
    ultimately have ctx: "free_start (p @ ?T) = free_start (q @ CHR ''#'' # w)"
      by simp
    have hyp: "v = w \<or> quiet v (p @ ?T) ?D"
    proof (cases "v = w")
      case True
      then show ?thesis ..
    next
      case False
      with less.prems(2) have "quiet v p (?T @ ?D)"
        by simp
      then have "quiet v (p @ ?T) ?D"
        by (rule quiet_append)
      then show ?thesis ..
    qed
    have "quiet v (q @ CHR ''#'' # w) (pass_loop w (p @ ?T) ?D)"
      using shorter ctx hyp by (rule less.hyps)
    with assms have "quiet v q (CHR ''#'' # w @ pass_loop w (p @ ?T) ?D)"
      by (intro quiet_after_tag)
    with assms(1) True show ?thesis
      by (simp add: pass_loop_hit)
  next
    case False
    show ?thesis
    proof (cases s)
      case Nil
      with assms show ?thesis
        by (simp add: pass_loop_Nil quiet_Nil tag_match_Nil)
    next
      case (Cons c cs)
      with False have out: "pass_loop w p s = c # pass_loop w (p @ [c]) cs"
        by (simp add: pass_loop_miss)
      have ctx: "free_start (p @ [c]) = free_start (q @ [c])"
        by (simp add: free_start_def)
      have hyp: "v = w \<or> quiet v (p @ [c]) cs"
        using less.prems(2) Cons by (auto simp: quiet_Cons)
      have tail: "quiet v (q @ [c]) (pass_loop w (p @ [c]) cs)"
        using _ ctx hyp by (rule less.hyps) (simp add: Cons)
      have miss: "\<not> tag_match v p s"
        using less.prems(2) False Cons by (auto simp: quiet_Cons)
      have "takeWhile isWordChar (pass_loop w p s) = takeWhile isWordChar s"
        using assms(1) False by (rule takeWhile_pass_loop)
      with less.prems(1) have "tag_match v q (pass_loop w p s) = tag_match v p s"
        by (simp add: tag_match_wordy [OF assms(2)])
      with miss have "\<not> tag_match v q (c # pass_loop w (p @ [c]) cs)"
        by (simp add: out)
      with tail show ?thesis
        by (simp add: out quiet_Cons)
    qed
  qed
qed

section \<open>Idempotence\<close>

lemma processFile_loop_step:
  "processFile_loop (tag # rest) s c =
     processFile_loop rest (pass_loop (toLowerCase (slice1 tag)) [] s)
       (pass_loop (toLowerCase (slice1 tag)) [] s \<noteq> s \<or> c)"
  by (simp add: processFile_loop_Cons Let_def replace_def pass_loop_def
        del: processFile_loop.simps)

lemma processFile_loop_establishes_quiet:
  assumes "\<forall>tag \<in> set ts. wordy (slice1 tag)"
    and "\<forall>v \<in> V. wordy v \<and> quiet v [] s"
  shows "\<exists>s' ch. processFile_loop ts s c = Inr (s', ch)
    \<and> (\<forall>v \<in> V \<union> (\<lambda>t. toLowerCase (slice1 t)) ` set ts. quiet v [] s')"
  using assms
proof (induction ts arbitrary: s c V)
  case Nil
  then show ?case by simp
next
  case (Cons tag ts)
  let ?w = "toLowerCase (slice1 tag)"
  let ?u = "pass_loop ?w [] s"
  from Cons.prems(1) have w: "wordy ?w"
    by (simp add: wordy_toLowerCase)
  have "\<forall>v \<in> insert ?w V. wordy v \<and> quiet v [] ?u"
  proof
    fix v
    assume v: "v \<in> insert ?w V"
    with w Cons.prems(2) have wv: "wordy v" and "v = ?w \<or> quiet v [] s"
      by auto
    with w have "quiet v [] ?u"
      by (intro quiet_pass_loop) simp_all
    with wv show "wordy v \<and> quiet v [] ?u" ..
  qed
  moreover from Cons.prems(1) have "\<forall>tag \<in> set ts. wordy (slice1 tag)"
    by simp
  ultimately obtain s' ch where "processFile_loop ts ?u (?u \<noteq> s \<or> c) = Inr (s', ch)"
    and "\<forall>v \<in> insert ?w V \<union> (\<lambda>t. toLowerCase (slice1 t)) ` set ts. quiet v [] s'"
    using Cons.IH [of "insert ?w V" ?u "?u \<noteq> s \<or> c"] by blast
  then show ?case
    by (auto simp: processFile_loop_step simp del: processFile_loop.simps)
qed

text \<open>
  C4, as stated, fails: with the tag #a-a the pass turns a-a-a into #a-a-a, and a second
  pass finds a-a once more, after the hyphen, and gives #a-#a-a.
\<close>

theorem pass_not_idempotent_counterexample:
  "processFile_loop [''#a-a''] ''a-a-a'' False = Inr (''#a-a-a'', True)
   \<and> processFile_loop [''#a-a''] ''#a-a-a'' False = Inr (''#a-#a-a'', True)"
  by code_simp

text \<open>
  C4, amended. When the bare word of every tag is not empty and holds word characters
  only (letters, digits, underscore), the pass is idempotent: on the text of a first
  pass, a second pass with the same tags gives back that text, with changed = false.
\<close>

theorem pass_idempotent_on_word_tags:
  assumes "\<forall>tag \<in> set ts. wordy (slice1 tag)"
  shows "\<exists>once changed. processFile_loop ts text False = Inr (once, changed)
    \<and> processFile_loop ts once False = Inr (once, False)"
proof -
  obtain once changed where 1: "processFile_loop ts text False = Inr (once, changed)"
    and q: "\<forall>v \<in> {} \<union> (\<lambda>t. toLowerCase (slice1 t)) ` set ts. quiet v [] once"
    using processFile_loop_establishes_quiet [OF assms, of "{}" "text" False] by auto
  from q have "\<forall>tag \<in> set ts. quiet (toLowerCase (slice1 tag)) [] once"
    by simp
  then have "processFile_loop ts once False = Inr (once, False)"
    by (rule processFile_loop_quiet)
  with 1 show ?thesis
    by blast
qed

theorem pass_idempotent_on_word_tags_witness:
  "processFile_loop [''#project'', ''#Idea_2''] ''Project idea_2, #project; projection'' False
     = Inr (''#project #idea_2, #project; projection'', True)
   \<and> processFile_loop [''#project'', ''#Idea_2''] ''#project #idea_2, #project; projection'' False
     = Inr (''#project #idea_2, #project; projection'', False)"
proof -
  have h: "\<forall>tag \<in> set [''#project'', ''#Idea_2'']. wordy (slice1 tag)"
    by (simp add: wordy_def slice1_def isWordChar_def)
  have e: "processFile_loop [''#project'', ''#Idea_2''] ''Project idea_2, #project; projection'' False
     = Inr (''#project #idea_2, #project; projection'', True)"
    by code_simp
  show ?thesis
    using e pass_idempotent_on_word_tags [OF h, of "''Project idea_2, #project; projection''"]
    by (simp del: processFile_loop.simps)
qed

section \<open>Standalone occurrences\<close>

lemma pass_loop_context:
  assumes "wordy w"
  shows "free_start p = free_start q \<Longrightarrow> pass_loop w p s = pass_loop w q s"
proof (induction "length s" arbitrary: s p q rule: less_induct)
  case less
  from less.prems assms have same: "tag_match w p s = tag_match w q s"
    by (simp add: tag_match_wordy)
  show ?case
  proof (cases "tag_match w p s")
    case True
    let ?T = "takeWhile isWordChar s" and ?D = "dropWhile isWordChar s"
    from True assms have "list_all2 ci_eq ?T w"
      by (simp add: tag_match_wordy)
    then have "length ?T = length w"
      by (rule list_all2_lengthD)
    with assms have ne: "?T \<noteq> []"
      by (auto simp: wordy_def)
    have words: "list_all isWordChar ?T"
      by (auto simp: list_all_iff dest: set_takeWhileD)
    have "length s = length (?T @ ?D)"
      by simp
    with ne have shorter: "length ?D < length s"
      by (simp del: takeWhile_dropWhile_id)
    have "free_start (p @ ?T) = free_start (q @ ?T)"
      using not_free_start_words [OF ne words] by simp
    with shorter have "pass_loop w (p @ ?T) ?D = pass_loop w (q @ ?T) ?D"
      by (rule less.hyps)
    with True same assms show ?thesis
      by (simp add: pass_loop_hit)
  next
    case False
    show ?thesis
    proof (cases s)
      case Nil
      with assms show ?thesis
        by (simp add: pass_loop_Nil)
    next
      case (Cons c cs)
      have "free_start (p @ [c]) = free_start (q @ [c])"
        by (simp add: free_start_def)
      with Cons have "pass_loop w (p @ [c]) cs = pass_loop w (q @ [c]) cs"
        by (intro less.hyps) simp
      with False same Cons show ?thesis
        by (simp add: pass_loop_miss)
    qed
  qed
qed

lemma pass_loop_nonword_start:
  assumes "wordy w" and "\<not> isWordAt s"
  shows "pass_loop w p s = pass_loop w q s"
proof (cases s)
  case Nil
  with assms show ?thesis
    by (simp add: pass_loop_Nil)
next
  case (Cons c cs)
  with assms have "\<not> tag_match w p s" and "\<not> tag_match w q s"
    by (simp_all add: tag_match_wordy isWordAt_def wordy_def)
  moreover have "pass_loop w (p @ [c]) cs = pass_loop w (q @ [c]) cs"
    using assms(1) by (rule pass_loop_context) (simp add: free_start_def)
  ultimately show ?thesis
    using Cons by (simp add: pass_loop_miss)
qed

lemma length_pass_loop:
  assumes "wordy w"
  shows "length s \<le> length (pass_loop w p s)"
proof (induction "length s" arbitrary: s p rule: less_induct)
  case less
  show ?case
  proof (cases "tag_match w p s")
    case True
    let ?T = "takeWhile isWordChar s" and ?D = "dropWhile isWordChar s"
    from True assms have "list_all2 ci_eq ?T w"
      by (simp add: tag_match_wordy)
    then have len: "length ?T = length w"
      by (rule list_all2_lengthD)
    with assms have ne: "?T \<noteq> []"
      by (auto simp: wordy_def)
    have split: "length s = length ?T + length ?D"
      using arg_cong [OF takeWhile_dropWhile_id [of isWordChar s], of length]
      by (simp only: length_append)
    with ne have "length ?D < length s"
      by simp
    then have "length ?D \<le> length (pass_loop w (p @ ?T) ?D)"
      by (rule less.hyps)
    with True assms len split show ?thesis
      by (simp add: pass_loop_hit)
  next
    case False
    show ?thesis
    proof (cases s)
      case Nil
      then show ?thesis by simp
    next
      case (Cons c cs)
      then have "length cs \<le> length (pass_loop w (p @ [c]) cs)"
        by (intro less.hyps) simp
      with False Cons show ?thesis
        by (simp add: pass_loop_miss)
    qed
  qed
qed

lemma pass_loop_append:
  assumes "wordy w"
  shows "\<not> isWordBefore a \<Longrightarrow> pass_loop w p (a @ b) = pass_loop w p a @ pass_loop w (p @ a) b"
proof (induction "length a" arbitrary: a p rule: less_induct)
  case less
  show ?case
  proof (cases a)
    case Nil
    with assms show ?thesis
      by (simp add: pass_loop_Nil)
  next
    case (Cons c cs)
    then have "last a \<in> set a" and "\<not> isWordChar (last a)"
      using less.prems by (simp_all add: isWordBefore_def)
    then have tw: "takeWhile isWordChar (a @ b) = takeWhile isWordChar a"
      and dw: "dropWhile isWordChar (a @ b) = dropWhile isWordChar a @ b"
      by (simp_all add: takeWhile_append1 dropWhile_append1)
    with assms have same: "tag_match w p (a @ b) = tag_match w p a"
      by (simp add: tag_match_wordy)
    show ?thesis
    proof (cases "tag_match w p a")
      case True
      let ?T = "takeWhile isWordChar a" and ?D = "dropWhile isWordChar a"
      from True assms have "list_all2 ci_eq ?T w"
        by (simp add: tag_match_wordy)
      then have "length ?T = length w"
        by (rule list_all2_lengthD)
      with assms have ne: "?T \<noteq> []"
        by (auto simp: wordy_def)
      have a: "a = ?T @ ?D"
        by simp
      have "length a = length ?T + length ?D"
        using arg_cong [OF takeWhile_dropWhile_id [of isWordChar a], of length]
        by (simp only: length_append)
      with ne have shorter: "length ?D < length a"
        by simp
      have "\<not> isWordBefore ?D"
      proof (cases "?D = []")
        case True
        then show ?thesis by (simp add: isWordBefore_def)
      next
        case False
        then have "last a = last ?D"
          using last_appendR [of ?D ?T] by simp
        with less.prems False show ?thesis
          by (auto simp: isWordBefore_def)
      qed
      with shorter have "pass_loop w (p @ ?T) (?D @ b)
          = pass_loop w (p @ ?T) ?D @ pass_loop w ((p @ ?T) @ ?D) b"
        by (rule less.hyps)
      moreover have "(p @ ?T) @ ?D = p @ a"
        by simp
      ultimately show ?thesis
        using True same assms tw dw by (simp add: pass_loop_hit)
    next
      case False
      have "\<not> isWordBefore cs"
        using less.prems Cons by (auto simp: isWordBefore_def split: if_splits)
      with Cons have "pass_loop w (p @ [c]) (cs @ b)
          = pass_loop w (p @ [c]) cs @ pass_loop w ((p @ [c]) @ cs) b"
        by (intro less.hyps) simp_all
      with False same Cons show ?thesis
        by (simp add: pass_loop_miss)
    qed
  qed
qed

lemma standalone_rewritten:
  assumes "wordy w" and "list_all2 ci_eq occ w" and "free_start pre" and "\<not> isWordAt post"
  shows "pass_loop w [] (pre @ occ @ post)
    = pass_loop w [] pre @ CHR ''#'' # w @ pass_loop w [] post"
proof -
  from assms(3) have "\<not> isWordBefore pre"
    by (simp add: free_start_iff)
  with assms(1) have 1: "pass_loop w [] (pre @ occ @ post)
      = pass_loop w [] pre @ pass_loop w ([] @ pre) (occ @ post)"
    by (rule pass_loop_append)
  from assms(1,2) have words: "list_all isWordChar occ"
    by (auto simp: wordy_def intro: ci_eq_words)
  from assms(4) have post: "takeWhile isWordChar post = []" "dropWhile isWordChar post = post"
    by (cases post; simp add: isWordAt_def)+
  from words have tw: "takeWhile isWordChar (occ @ post) = occ"
    and dw: "dropWhile isWordChar (occ @ post) = post"
    using post by (simp_all add: list_all_iff takeWhile_append2 dropWhile_append2)
  with assms have "tag_match w pre (occ @ post)"
    by (simp add: tag_match_wordy)
  with assms(1) have 2: "pass_loop w pre (occ @ post)
      = CHR ''#'' # w @ pass_loop w (pre @ occ) post"
    using tw dw by (simp add: pass_loop_hit)
  from assms(1,4) have 3: "pass_loop w (pre @ occ) post = pass_loop w [] post"
    by (rule pass_loop_nonword_start)
  from 1 2 3 show ?thesis
    by simp
qed

lemma match_avoids_longer_word:
  assumes "wordy w" and "tag_match w pre rest" and "a @ long @ b = pre @ rest"
    and "list_all isWordChar long" and "length w < length long"
  shows "length pre + length w \<le> length a \<or> length a + length long \<le> length pre"
proof (rule ccontr)
  assume "\<not> ?thesis"
  then have h1: "length a < length pre + length w" and h2: "length pre < length a + length long"
    by simp_all
  have words: "isWordChar ((pre @ rest) ! k)"
    if "length a \<le> k" and "k < length a + length long" for k
  proof -
    from that have "k - length a < length long"
      by arith
    with that have "(a @ long @ b) ! k = long ! (k - length a)"
      by (simp add: nth_append)
    moreover from that have "long ! (k - length a) \<in> set long"
      by (intro nth_mem) simp
    ultimately show ?thesis
      using assms(3,4) by (simp add: list_all_iff)
  qed
  have "length (a @ long @ b) = length (pre @ rest)"
    using assms(3) by (rule arg_cong)
  then have total: "length a + length long + length b = length pre + length rest"
    by simp
  show False
  proof (cases "length a < length pre")
    case True
    then have ne: "pre \<noteq> []"
      by auto
    from True h2 have "isWordChar ((pre @ rest) ! (length pre - 1))"
      by (intro words) simp_all
    with ne have "isWordChar (last pre)"
      by (simp add: nth_append last_conv_nth)
    with ne have "isWordBefore pre"
      by (simp add: isWordBefore_def)
    with assms(1,2) show False
      by (simp add: tag_match_wordy free_start_iff)
  next
    case False
    let ?n = "length w"
    from False h1 assms(5) have "isWordChar ((pre @ rest) ! (length pre + ?n))"
      by (intro words) simp_all
    then have w: "isWordChar (rest ! ?n)"
      by (simp add: nth_append)
    from False assms(5) total have n: "?n < length rest"
      by simp
    then have "hd (drop ?n rest) = rest ! ?n" and "drop ?n rest \<noteq> []"
      by (simp_all add: hd_drop_conv_nth)
    with w have at: "isWordAt (drop ?n rest)"
      by (simp add: isWordAt_def)
    from assms(2) have ci: "list_all2 ci_eq (take ?n rest) w"
      by (simp add: tag_match_def)
    with assms(1) have "list_all isWordChar (take ?n rest)"
      by (auto simp: wordy_def intro: ci_eq_words)
    moreover from assms(1) n have "take ?n rest \<noteq> []"
      by (auto simp: wordy_def)
    ultimately have "isWordBefore (pre @ take ?n rest)"
      by (intro isWordBefore_append_words)
    with at assms(2) show False
      by (simp add: tag_match_def)
  qed
qed

lemma processFile_loop_single:
  "processFile_loop [tag] s False
     = Inr (pass_loop (toLowerCase (slice1 tag)) [] s,
            pass_loop (toLowerCase (slice1 tag)) [] s \<noteq> s)"
  by (simp add: processFile_loop_step del: processFile_loop.simps(2))

text \<open>
  C8. With the tag #project: an occurrence of project in any casing that stands alone
  (not after a word character or a #, not before a word character) is replaced by
  exactly #project, the text before and the text after it being rewritten on their own;
  a match of the rule never overlaps an occurrence of projection, in any casing; and
  the text projection is left as it is.
\<close>

theorem word_boundary_and_case_folding:
  "(list_all2 ci_eq occ ''project'' \<and> free_start pre \<and> \<not> isWordAt post \<longrightarrow>
      processFile_loop [''#project''] (pre @ occ @ post) False
        = Inr (replace pre (tag_regex ''project'') ''#project'' @ ''#project''
               @ replace post (tag_regex ''project'') ''#project'', True))
   \<and> (a @ long @ b = before @ rest \<and> list_all2 ci_eq long ''projection''
        \<and> RegExp_new (tag_pattern (escapeRegExp (toLowerCase (slice1 ''#project'')))) = Inr re
        \<and> match_nodes re before rest = Some n \<longrightarrow>
      length before + n \<le> length a \<or> length a + length long \<le> length before)
   \<and> processFile_loop [''#project''] ''projection'' False = Inr (''projection'', False)"
proof (intro conjI impI)
  have l: "toLowerCase (slice1 ''#project'') = ''project''"
    by (simp add: toLowerCase_def slice1_def toLowerCase_char_def)
  have w: "wordy ''project''"
    by (simp add: wordy_def isWordChar_def)
  {
    assume h: "list_all2 ci_eq occ ''project'' \<and> free_start pre \<and> \<not> isWordAt post"
    let ?u = "pass_loop ''project'' [] (pre @ occ @ post)"
    from w h have u: "?u = pass_loop ''project'' [] pre @ ''#project''
        @ pass_loop ''project'' [] post"
      using standalone_rewritten [of "''project''" occ pre post] by simp
    from h have "length occ = 7"
      by (auto dest: list_all2_lengthD)
    then have "length (pre @ occ @ post) < length ?u"
      using length_pass_loop [OF w, of pre "[]"] length_pass_loop [OF w, of post "[]"]
      by (simp add: u)
    then have "?u \<noteq> pre @ occ @ post"
      by auto
    then show "processFile_loop [''#project''] (pre @ occ @ post) False
        = Inr (replace pre (tag_regex ''project'') ''#project'' @ ''#project''
               @ replace post (tag_regex ''project'') ''#project'', True)"
      using u by (simp add: processFile_loop_single l replace_def pass_loop_def
          del: processFile_loop.simps)
  }
  {
    assume h: "a @ long @ b = before @ rest \<and> list_all2 ci_eq long ''projection''
        \<and> RegExp_new (tag_pattern (escapeRegExp (toLowerCase (slice1 ''#project'')))) = Inr re
        \<and> match_nodes re before rest = Some n"
    then have "re = tag_regex ''project''"
      using RegExp_new_tag_pattern [of "''project''"] by (simp add: l)
    with h have m: "tag_match ''project'' before rest" and n: "n = 7"
      by (auto simp: match_tag_regex split: if_splits)
    have "list_all isWordChar ''projection''"
      by (simp add: isWordChar_def)
    with h have words: "list_all isWordChar long"
      by (auto intro: ci_eq_words)
    from h have "length long = 10"
      by (auto dest: list_all2_lengthD)
    then have longer: "length ''project'' < length long"
      by simp
    from h have eq: "a @ long @ b = before @ rest"
      by simp
    have len: "length ''project'' = 7"
      by simp
    show "length before + n \<le> length a \<or> length a + length long \<le> length before"
      using match_avoids_longer_word [OF w m eq words longer] unfolding len n .
  }
  show "processFile_loop [''#project''] ''projection'' False = Inr (''projection'', False)"
    by code_simp
qed

theorem word_boundary_and_case_folding_witness:
  "processFile_loop [''#project''] ''my PROJECT, Project plan'' False
     = Inr (''my #project, #project plan'', True)
   \<and> match_nodes (tag_regex ''project'') ''a '' ''Projection b'' = None"
proof -
  have h: "list_all2 ci_eq ''PROJECT'' ''project'' \<and> free_start ''my ''
      \<and> \<not> isWordAt '', Project plan''"
    by (simp add: ci_eq_def Canonicalize_def free_start_def isWordAt_def isWordChar_def)
  have p: "replace ''my '' (tag_regex ''project'') ''#project'' = ''my ''"
    by code_simp
  have q: "replace '', Project plan'' (tag_regex ''project'') ''#project'' = '', #project plan''"
    by code_simp
  have r: "RegExp_new (tag_pattern (escapeRegExp (toLowerCase (slice1 ''#project''))))
      = Inr (tag_regex ''project'')"
    by code_simp
  have c: "list_all2 ci_eq ''Projection'' ''projection''"
    by (simp add: ci_eq_def Canonicalize_def)
  have m: "match_nodes (tag_regex ''project'') ''a '' ''Projection b'' = None"
  proof (cases "match_nodes (tag_regex ''project'') ''a '' ''Projection b''")
    case None
    then show ?thesis .
  next
    case (Some n)
    with r c word_boundary_and_case_folding
      [of "''PROJECT''" "''my ''" "'', Project plan''" "''a ''" "''Projection''" "'' b''"
          "''a ''" "''Projection b''" "tag_regex ''project''" n]
    have "2 + n \<le> 2 \<or> (12::nat) \<le> 2"
      by simp
    moreover from Some have "n = 7"
      by (simp add: match_tag_regex split: if_splits)
    ultimately show ?thesis
      by simp
  qed
  show ?thesis
    using h p q m word_boundary_and_case_folding
      [of "''PROJECT''" "''my ''" "'', Project plan''" "''a ''" "''Projection''" "'' b''"
          "''a ''" "''Projection b''" "tag_regex ''project''" 0]
    by (simp del: processFile_loop.simps)
qed

section \<open>Texts the pass leaves alone\<close>

lemma tagged_everywhere_quiet: "tagged_everywhere w pre rest \<Longrightarrow> quiet w pre rest"
  by (induction rest arbitrary: pre)
     (auto simp: quiet_Nil quiet_Cons tag_match_def occurs_here_def)

lemma untagged_occurrence_quiet:
  assumes "wordy w"
  shows "untagged_occurrence w pre rest \<longleftrightarrow> \<not> quiet w pre rest"
proof (induction rest arbitrary: pre)
  case Nil
  from assms show ?case
    by (simp add: quiet_Nil tag_match_Nil)
next
  case (Cons c cs)
  then show ?case
    by (simp add: quiet_Cons tag_match_wordy [OF assms])
qed

lemma pass_loop_grows:
  assumes "wordy w"
  shows "\<not> quiet w p s \<Longrightarrow> length s < length (pass_loop w p s)"
proof (induction s arbitrary: p)
  case Nil
  with assms show ?case
    by (simp add: quiet_Nil tag_match_Nil)
next
  case (Cons c cs)
  show ?case
  proof (cases "tag_match w p (c # cs)")
    case True
    let ?s = "c # cs"
    let ?T = "takeWhile isWordChar ?s" and ?D = "dropWhile isWordChar ?s"
    from True assms have "list_all2 ci_eq ?T w"
      by (simp only: tag_match_wordy)
    then have len: "length ?T = length w"
      by (rule list_all2_lengthD)
    have split: "length ?s = length ?T + length ?D"
      using arg_cong [OF takeWhile_dropWhile_id [of isWordChar ?s], of length]
      by (simp only: length_append)
    have "length ?D \<le> length (pass_loop w (p @ ?T) ?D)"
      using assms by (rule length_pass_loop)
    with len split have "length ?s < length (CHR ''#'' # w @ pass_loop w (p @ ?T) ?D)"
      by simp
    with True assms show ?thesis
      by (simp only: pass_loop_hit)
  next
    case False
    with Cons.prems have "\<not> quiet w (p @ [c]) cs"
      by (simp add: quiet_Cons)
    then have "length cs < length (pass_loop w (p @ [c]) cs)"
      by (rule Cons.IH)
    with False show ?thesis
      by (simp add: pass_loop_miss)
  qed
qed

lemma single_tag_fixed_iff:
  assumes "wordy (slice1 tag)"
  shows "processFile_loop [tag] s False = Inr (s, False)
    \<longleftrightarrow> \<not> untagged_occurrence (toLowerCase (slice1 tag)) [] s"
proof -
  let ?w = "toLowerCase (slice1 tag)"
  from assms have w: "wordy ?w"
    by (rule wordy_toLowerCase)
  show ?thesis
  proof (cases "quiet ?w [] s")
    case True
    then have "pass_loop ?w [] s = s"
      by (simp add: pass_loop_def quiet_replace_loop)
    with True w show ?thesis
      by (simp add: processFile_loop_single untagged_occurrence_quiet
            del: processFile_loop.simps)
  next
    case False
    with w have "length s < length (pass_loop ?w [] s)"
      by (intro pass_loop_grows)
    then have "pass_loop ?w [] s \<noteq> s"
      by auto
    with False w show ?thesis
      by (simp add: processFile_loop_single untagged_occurrence_quiet
            del: processFile_loop.simps)
  qed
qed

text \<open>
  C5, as stated, fails: a text that holds #project can hold an untagged project as
  well, and the pass tags it; it also tags the word after the hyphen of #my-project.
\<close>

theorem text_with_tag_rewritten_counterexample:
  "processFile_loop [''#project''] ''project #project'' False
     = Inr (''#project #project'', True)
   \<and> processFile_loop [''#project''] ''#project #my-project'' False
     = Inr (''#project #my-#project'', True)"
  by code_simp

text \<open>
  C5, amended. The pass with the tag #project alone gives back a text unchanged, with
  changed = false, exactly when the text has no untagged standalone occurrence of
  project: no whole run of word characters that is project in some casing and follows
  neither a word character nor a #. So a text in which every occurrence of project
  comes right after a # is a fixed point. The rule of a tag never matches right after
  a #, so #project is never made ##project.
\<close>

theorem already_tagged_fixed_point:
  "(processFile_loop [''#project''] text False = Inr (text, False)
      \<longleftrightarrow> \<not> untagged_occurrence ''project'' [] text)
   \<and> (tagged_everywhere ''project'' [] text \<longrightarrow>
      processFile_loop [''#project''] text False = Inr (text, False))
   \<and> (pre \<noteq> [] \<and> last pre = CHR ''#'' \<longrightarrow>
      RegExp_new (tag_pattern (escapeRegExp (toLowerCase (slice1 tag)))) = Inr re \<longrightarrow>
      match_nodes re pre rest = None)"
proof (intro conjI impI)
  have l: "toLowerCase (slice1 ''#project'') = ''project''"
    by (simp add: toLowerCase_def slice1_def toLowerCase_char_def)
  have w: "wordy (slice1 ''#project'')"
    by (simp add: wordy_def slice1_def isWordChar_def)
  show "processFile_loop [''#project''] text False = Inr (text, False)
      \<longleftrightarrow> \<not> untagged_occurrence ''project'' [] text"
    using single_tag_fixed_iff [OF w, of "text"] by (simp only: l)
  {
    assume "tagged_everywhere ''project'' [] text"
    then have "quiet (toLowerCase (slice1 ''#project'')) [] text"
      unfolding l by (rule tagged_everywhere_quiet)
    then show "processFile_loop [''#project''] text False = Inr (text, False)"
      using processFile_loop_quiet [of "[''#project'']" "text" False] by simp
  }
  {
    assume p: "pre \<noteq> [] \<and> last pre = CHR ''#''"
      and r: "RegExp_new (tag_pattern (escapeRegExp (toLowerCase (slice1 tag)))) = Inr re"
    from r have "re = tag_regex (toLowerCase (slice1 tag))"
      by (simp add: RegExp_new_tag_pattern)
    with p show "match_nodes re pre rest = None"
      by (simp add: match_tag_regex tag_match_def)
  }
qed

theorem already_tagged_fixed_point_witness:
  "processFile_loop [''#project''] ''see #project and #Project'' False
       = Inr (''see #project and #Project'', False)
   \<and> processFile_loop [''#project''] ''#project projection'' False
       = Inr (''#project projection'', False)
   \<and> untagged_occurrence ''project'' [] ''project #project''
   \<and> processFile_loop [''#project''] ''project #project'' False
       \<noteq> Inr (''project #project'', False)
   \<and> match_nodes (tag_regex ''project'') ''#'' ''project'' = None"
proof -
  have t: "tagged_everywhere ''project'' [] ''see #project and #Project''"
    by (simp add: occurs_here_def ci_eq_def Canonicalize_def)
  have u: "\<not> untagged_occurrence ''project'' [] ''#project projection''"
    by code_simp
  have v: "untagged_occurrence ''project'' [] ''project #project''"
    by code_simp
  have r: "RegExp_new (tag_pattern (escapeRegExp (toLowerCase (slice1 ''#project''))))
       = Inr (tag_regex ''project'')"
    by code_simp
  show ?thesis
    using t u v r
      already_tagged_fixed_point [of "''see #project and #Project''" "''#''" "''#project''"
        "tag_regex ''project''" "''project''"]
      already_tagged_fixed_point [of "''#project projection''" "''#''" "''#project''"
        "tag_regex ''project''" "''project''"]
      already_tagged_fixed_point [of "''project #project''" "''#''" "''#project''"
        "tag_regex ''project''" "''project''"]
    by (simp del: processFile_loop.simps)
qed

end
